theory Spec2Isabelle
  imports Complex_Main "HOL-Library.Word" "HOL-Library.Signed_Division"
begin

section \<open>Shared types\<close>

text \<open>
  \<^verbatim>\<open>chainhash.Hash\<close> is a 32-byte array, compared with \<^verbatim>\<open>==\<close>: a 256-bit word.
  \<^verbatim>\<open>time.Time\<close> is read as an instant in nanoseconds, \<^verbatim>\<open>time.Duration\<close> is a
  signed 64-bit count of nanoseconds. The value of \<^verbatim>\<open>time.Now()\<close> is an argument of
  every operation that reads the clock.
\<close>

type_synonym Hash = "256 word"
type_synonym Time = int
type_synonym Duration = int

definition maxDuration :: Duration where
  "maxDuration = 2 ^ 63 - 1"

definition minDuration :: Duration where
  "minDuration = - (2 ^ 63)"

text \<open>\<^verbatim>\<open>t.Sub(u)\<close>: the difference, saturated at the ends of the int64 range.\<close>

definition Sub :: "Time \<Rightarrow> Time \<Rightarrow> Duration" where
  "Sub t u = (if t - u > maxDuration then maxDuration
              else if t - u < minDuration then minDuration
              else t - u)"

text \<open>
  \<^verbatim>\<open>d.Seconds()\<close>: \<^verbatim>\<open>sec := d / Second; nsec := d % Second;
  return float64(sec) + float64(nsec)/1e9\<close>, with Go's truncating division. The sum is
  taken in the reals here. The only use of the result is the test \<^verbatim>\<open>> 3\<close>: the
  float64 value is exactly 3 at 3 seconds, and rounding keeps the order, so the test
  comes out as it does in the reals.
\<close>

definition Second :: Duration where
  "Second = 1000000000"

definition Seconds :: "Duration \<Rightarrow> real" where
  "Seconds d = real_of_int (d sdiv Second) + real_of_int (d smod Second) / 1000000000"

text \<open>
  The results of \<^verbatim>\<open>tx.TxHash()\<close> and \<^verbatim>\<open>outpoint.OutpointHash()\<close> (package wire) are
  carried by the values they are computed from.
\<close>

record OutPoint =
  Hash :: Hash
  Index :: "32 word"
  OutpointHash :: Hash

record TxIn =
  PreviousOutPoint :: OutPoint

record MsgTx =
  TxHash :: Hash
  TxIn :: "TxIn list"

text \<open>
  What stops a call from returning: a \<^verbatim>\<open>Lock()\<close> on a \<^verbatim>\<open>sync.Mutex\<close> that the
  calling goroutine itself holds (the mutex is not reentrant, so the call waits for
  ever), or a run-time panic.
\<close>

datatype fault = Deadlock | Panic

section \<open>MemPool\<close>

record memPoolTx =
  time :: Time
  outPoints :: "OutPoint list"

record MemPool =
  txs :: "Hash \<rightharpoonup> memPoolTx"
  inputs :: "Hash \<rightharpoonup> Hash list"
  requests :: "Hash \<rightharpoonup> Time"
  mutex :: bool

definition NewMemPool :: MemPool where
  "NewMemPool = \<lparr>txs = Map.empty, inputs = Map.empty, requests = Map.empty, mutex = False\<rparr>"

text \<open>
  The model follows one goroutine. \<open>mutex\<close> is \<open>True\<close> while that goroutine holds
  the lock; \<open>Lock\<close> then never returns.
\<close>

definition Lock :: "MemPool \<Rightarrow> fault + MemPool" where
  "Lock memPool = (if mutex memPool then Inl Deadlock else Inr (memPool\<lparr>mutex := True\<rparr>))"

definition Unlock :: "MemPool \<Rightarrow> MemPool" where
  "Unlock memPool = memPool\<lparr>mutex := False\<rparr>"

definition AddRequest :: "Time \<Rightarrow> Hash \<Rightarrow> MemPool \<Rightarrow> fault + ((bool \<times> bool) \<times> MemPool)" where
  "AddRequest now txid memPool =
     (case Lock memPool of
        Inl f \<Rightarrow> Inl f
      | Inr m \<Rightarrow>
          (case txs m txid of
             Some _ \<Rightarrow> Inr ((True, False), Unlock m)
           | None \<Rightarrow>
               (case requests m txid of
                  None \<Rightarrow> Inr ((False, True), Unlock (m\<lparr>requests := (requests m)(txid \<mapsto> now)\<rparr>))
                | Some requestTime \<Rightarrow>
                    if Seconds (Sub now requestTime) > 3
                    then Inr ((False, True), Unlock (m\<lparr>requests := (requests m)(txid \<mapsto> now)\<rparr>))
                    else Inr ((False, False), Unlock m))))"

definition newMemPoolTx :: "Time \<Rightarrow> MsgTx \<Rightarrow> memPoolTx" where
  "newMemPoolTx t tx = \<lparr>time = t, outPoints = map PreviousOutPoint (TxIn tx)\<rparr>"

text \<open>
  \<^verbatim>\<open>appendIfNotContained(list, add)\<close> has no result: it appends to its own copy of the
  slice header. The function below computes the final value of that local variable.
\<close>

fun appendIfNotContained :: "Hash list \<Rightarrow> Hash list \<Rightarrow> Hash list" where
  "appendIfNotContained list [] = list"
| "appendIfNotContained list (addHash # add) =
     appendIfNotContained (if addHash \<in> set list then list else list @ [addHash]) add"

text \<open>
  The loop of \<^verbatim>\<open>AddTransaction\<close> over \<^verbatim>\<open>newTx.outPoints\<close>. When the outpoint is
  indexed already, the call \<^verbatim>\<open>appendIfNotContained(result, list)\<close> works on a copy of
  \<^verbatim>\<open>result\<close> (length 0, capacity 0, so every append allocates), and
  \<^verbatim>\<open>list = append(list, &hash)\<close> assigns the local variable only: neither
  \<^verbatim>\<open>result\<close> nor the slice stored in \<^verbatim>\<open>memPool.inputs\<close> changes.
\<close>

fun addInputs ::
  "Hash \<Rightarrow> OutPoint list \<Rightarrow> Hash list \<Rightarrow> (Hash \<rightharpoonup> Hash list) \<Rightarrow> Hash list \<times> (Hash \<rightharpoonup> Hash list)" where
  "addInputs hash [] result inp = (result, inp)"
| "addInputs hash (outpoint # rest) result inp =
     (let outpointHash = OutpointHash outpoint in
      case inp outpointHash of
        Some list \<Rightarrow>
          (let discarded = appendIfNotContained result list;
               local = list @ [hash]
           in addInputs hash rest result inp)
      | None \<Rightarrow> addInputs hash rest result (inp(outpointHash \<mapsto> [hash])))"

definition AddTransaction :: "Time \<Rightarrow> MsgTx \<Rightarrow> MemPool \<Rightarrow> fault + ((Hash list \<times> bool) \<times> MemPool)" where
  "AddTransaction now tx memPool =
     (case Lock memPool of
        Inl f \<Rightarrow> Inl f
      | Inr m \<Rightarrow>
          (let result = []; hash = TxHash tx in
           case txs m hash of
             Some _ \<Rightarrow> Inr ((result, False), Unlock m)
           | None \<Rightarrow>
               (let newTx = newMemPoolTx now tx;
                    m1 = m\<lparr>txs := (txs m)(hash \<mapsto> newTx)\<rparr>;
                    (result', inp) = addInputs hash (outPoints newTx) result (inputs m1)
                in Inr ((result', True), Unlock (m1\<lparr>inputs := inp\<rparr>)))))"

text \<open>
  The inner loop of \<^verbatim>\<open>RemoveTransaction\<close>, taken when the slice has more than one
  element: it looks for the first element equal to \<^verbatim>\<open>outpointHash\<close> and executes
  \<^verbatim>\<open>otherHashes = append(otherHashes[:i], otherHashes[i+1:]...)\<close>. The append moves the
  elements after \<open>i\<close> one place down in the array that the slice in the map shares;
  the header in the map keeps its length, so the map sees the last element twice.
\<close>

fun indexOf :: "Hash \<Rightarrow> Hash list \<Rightarrow> nat option" where
  "indexOf h [] = None"
| "indexOf h (x # xs) = (if x = h then Some 0 else map_option Suc (indexOf h xs))"

definition cutShared :: "Hash \<Rightarrow> Hash list \<Rightarrow> Hash list" where
  "cutShared outpointHash otherHashes =
     (case indexOf outpointHash otherHashes of
        None \<Rightarrow> otherHashes
      | Some i \<Rightarrow> take i otherHashes @ drop (Suc i) otherHashes @ [last otherHashes])"

fun removeOutpoints :: "OutPoint list \<Rightarrow> (Hash \<rightharpoonup> Hash list) \<Rightarrow> (Hash \<rightharpoonup> Hash list)" where
  "removeOutpoints [] inp = inp"
| "removeOutpoints (outpoint # rest) inp =
     (let outpointHash = OutpointHash outpoint in
      case inp outpointHash of
        Some otherHashes \<Rightarrow>
          if length otherHashes > 1
          then removeOutpoints rest (inp(outpointHash \<mapsto> cutShared outpointHash otherHashes))
          else removeOutpoints rest (inp(outpointHash := None))
      | None \<Rightarrow> removeOutpoints rest inp)"

definition RemoveTransaction :: "Hash \<Rightarrow> MemPool \<Rightarrow> fault + (bool \<times> MemPool)" where
  "RemoveTransaction hash memPool =
     (case Lock memPool of
        Inl f \<Rightarrow> Inl f
      | Inr m \<Rightarrow>
          (case txs m hash of
             Some tx \<Rightarrow>
               Inr (True, Unlock (m\<lparr>inputs := removeOutpoints (outPoints tx) (inputs m),
                                      txs := (txs m)(hash := None)\<rparr>))
           | None \<Rightarrow> Inr (False, Unlock m)))"

definition TransactionExists :: "Hash \<Rightarrow> MemPool \<Rightarrow> fault + (bool \<times> MemPool)" where
  "TransactionExists hash memPool =
     (case Lock memPool of
        Inl f \<Rightarrow> Inl f
      | Inr m \<Rightarrow> Inr (txs m hash \<noteq> None, Unlock m))"

text \<open>
  \<^verbatim>\<open>Conflicting\<close> calls \<^verbatim>\<open>memPool.RemoveTransaction(hash)\<close> while it holds the mutex.
  The inner loop runs over the slice read from the index before the first call. A call
  of \<^verbatim>\<open>RemoveTransaction\<close> with the mutex held does not return, so the deferred
  \<^verbatim>\<open>Unlock\<close> of \<^verbatim>\<open>Conflicting\<close> only ever meets a mutex that is still held
  (\<open>conflictingInputs_returns\<close> below).
\<close>

fun conflictingList :: "Hash list \<Rightarrow> Hash list \<Rightarrow> MemPool \<Rightarrow> fault + (Hash list \<times> MemPool)" where
  "conflictingList [] result m = Inr (result, m)"
| "conflictingList (hash # rest) result m =
     (case RemoveTransaction hash m of
        Inl f \<Rightarrow> Inl f
      | Inr (_, m') \<Rightarrow> conflictingList rest (result @ [hash]) m')"

fun conflictingInputs :: "TxIn list \<Rightarrow> Hash list \<Rightarrow> MemPool \<Rightarrow> fault + (Hash list \<times> MemPool)" where
  "conflictingInputs [] result m = Inr (result, m)"
| "conflictingInputs (input # rest) result m =
     (case inputs m (OutpointHash (PreviousOutPoint input)) of
        Some list \<Rightarrow>
          (case conflictingList list result m of
             Inl f \<Rightarrow> Inl f
           | Inr (result', m') \<Rightarrow> conflictingInputs rest result' m')
      | None \<Rightarrow> conflictingInputs rest result m)"

definition Conflicting :: "MsgTx \<Rightarrow> MemPool \<Rightarrow> fault + (Hash list \<times> MemPool)" where
  "Conflicting tx memPool =
     (case Lock memPool of
        Inl f \<Rightarrow> Inl f
      | Inr m \<Rightarrow>
          (case conflictingInputs (TxIn tx) [] m of
             Inl f \<Rightarrow> Inl f
           | Inr (result, m') \<Rightarrow> Inr (result, Unlock m')))"

text \<open>
  Every slice in the index has exactly one element. This holds in the new mempool and
  after every operation, so the branch of \<^verbatim>\<open>RemoveTransaction\<close> for longer slices is
  never taken from there.
\<close>

definition singletons :: "(Hash \<rightharpoonup> Hash list) \<Rightarrow> bool" where
  "singletons inp = (\<forall>k list. inp k = Some list \<longrightarrow> length list = 1)"

section \<open>UntrustedNode\<close>

text \<open>
  \<^verbatim>\<open>wire.Message\<close> is an interface. Its values are told apart here by the call that
  builds them: \<^verbatim>\<open>buildVersionMsg\<close>, \<^verbatim>\<open>buildHeaderRequest\<close>,
  \<^verbatim>\<open>wire.NewMsgGetAddr()\<close>, \<^verbatim>\<open>wire.NewMsgMemPool()\<close>, the responses of
  \<^verbatim>\<open>txTracker.Check\<close>, and the transaction handed to \<^verbatim>\<open>BroadcastTx\<close>. What those
  calls put into a message is not part of this file and is an opaque payload.
\<close>

type_synonym payload = nat

datatype Message =
    MsgVersion payload
  | HeaderRequest payload
  | MsgGetAddr
  | MsgMemPool
  | TrackerResponse payload
  | MsgTxMessage MsgTx

text \<open>
  The fields of \<^verbatim>\<open>data.UntrustedState\<close> that the node reads and writes.
\<close>

record UntrustedState =
  ConnectedTime :: "Time option"
  VersionReceived :: bool
  ProtocolVersion :: "32 word"
  HandshakeComplete :: bool
  HeadersRequested :: "Time option"
  Verified :: bool
  ScoreUpdated :: bool
  AddressesRequested :: bool
  MemPoolRequested :: bool

text \<open>
  The channel \<^verbatim>\<open>outgoing\<close>: whether it has been closed, and every message sent on it
  so far, in order. The writer duty that receives from the channel is not modelled; a
  send that finds the buffer of 100 full waits for that duty and then stores its message,
  so it extends the sequence all the same. \<^verbatim>\<open>close\<close> of a closed channel and a send
  on a closed channel panic.
\<close>

record Chan =
  chanClosed :: bool
  sent :: "Message list"

definition close :: "Chan \<Rightarrow> fault + Chan" where
  "close c = (if chanClosed c then Inl Panic else Inr (c\<lparr>chanClosed := True\<rparr>))"

definition chanSend :: "Message \<Rightarrow> Chan \<Rightarrow> fault + Chan" where
  "chanSend msg c = (if chanClosed c then Inl Panic else Inr (c\<lparr>sent := sent c @ [msg]\<rparr>))"

text \<open>
  \<open>peers\<close> is the sequence of calls \<^verbatim>\<open>node.peers.UpdateScore(ctx, address, delta)\<close>
  made so far; \<open>conn\<close> is \<open>None\<close> for \<^verbatim>\<open>nil\<close>.
\<close>

type_synonym Conn = nat

record UntrustedNode =
  address :: string
  state :: UntrustedState
  peers :: "(string \<times> int) list"
  conn :: "Conn option"
  outgoing :: Chan
  outgoingOpen :: bool
  stopping :: bool
  Active :: bool
  nodeMutex :: bool

text \<open>
  \<^verbatim>\<open>NewUntrustedNode\<close>; the result of \<^verbatim>\<open>data.NewUntrustedState()\<close> and the shared
  peer repository are arguments.
\<close>

definition NewUntrustedNode :: "string \<Rightarrow> UntrustedState \<Rightarrow> (string \<times> int) list \<Rightarrow> UntrustedNode" where
  "NewUntrustedNode addr st prs =
     \<lparr>address = addr, state = st, peers = prs, conn = None,
      outgoing = \<lparr>chanClosed = False, sent = []\<rparr>, outgoingOpen = True,
      stopping = False, Active = True, nodeMutex = False\<rparr>"

definition nodeLock :: "UntrustedNode \<Rightarrow> fault + UntrustedNode" where
  "nodeLock node = (if nodeMutex node then Inl Deadlock else Inr (node\<lparr>nodeMutex := True\<rparr>))"

definition nodeUnlock :: "UntrustedNode \<Rightarrow> UntrustedNode" where
  "nodeUnlock node = node\<lparr>nodeMutex := False\<rparr>"

text \<open>\<^verbatim>\<open>disconnect\<close> always returns \<^verbatim>\<open>nil\<close>; only the node is returned here.\<close>

definition disconnect :: "UntrustedNode \<Rightarrow> UntrustedNode" where
  "disconnect node = (case conn node of None \<Rightarrow> node | Some c \<Rightarrow> node\<lparr>conn := None\<rparr>)"

text \<open>A Go \<^verbatim>\<open>error\<close> result is \<open>None\<close> for \<^verbatim>\<open>nil\<close> and \<open>Some\<close> of its text otherwise.\<close>

definition Stop :: "UntrustedNode \<Rightarrow> fault + (string option \<times> UntrustedNode)" where
  "Stop node =
     (case nodeLock node of
        Inl f \<Rightarrow> Inl f
      | Inr n \<Rightarrow>
          (let n1 = n\<lparr>stopping := True\<rparr> in
           if outgoingOpen n1
           then (case close (outgoing n1) of
                   Inl f \<Rightarrow> Inl f
                 | Inr c \<Rightarrow> Inr (None, nodeUnlock (disconnect (n1\<lparr>outgoing := c, outgoingOpen := False\<rparr>))))
           else Inr (None, nodeUnlock (disconnect n1))))"

definition BroadcastTx :: "MsgTx \<Rightarrow> UntrustedNode \<Rightarrow> fault + (string option \<times> UntrustedNode)" where
  "BroadcastTx tx node =
     (case nodeLock node of
        Inl f \<Rightarrow> Inl f
      | Inr n \<Rightarrow>
          if \<not> outgoingOpen n then Inr (Some ''Node inactive'', nodeUnlock n)
          else (case chanSend (MsgTxMessage tx) (outgoing n) of
                  Inl f \<Rightarrow> Inl f
                | Inr c \<Rightarrow> Inr (None, nodeUnlock (n\<lparr>outgoing := c\<rparr>))))"

text \<open>
  What one invocation of \<^verbatim>\<open>check\<close> gets from outside: the clock, the result of
  \<^verbatim>\<open>buildHeaderRequest\<close> (an error text or the message), and the result of
  \<^verbatim>\<open>node.txTracker.Check\<close> (an error text or the responses).
\<close>

record tick =
  timeNow :: Time
  buildHeaderRequest :: "string + payload"
  txTrackerCheck :: "string + payload list"

text \<open>\<^verbatim>\<open>node.outgoing <- msg\<close>\<close>

definition nodeSend :: "Message \<Rightarrow> UntrustedNode \<Rightarrow> fault + UntrustedNode" where
  "nodeSend msg node =
     (case chanSend msg (outgoing node) of
        Inl f \<Rightarrow> Inl f
      | Inr c \<Rightarrow> Inr (node\<lparr>outgoing := c\<rparr>))"

text \<open>The loop \<^verbatim>\<open>for _, response := range responses { node.outgoing <- response }\<close>.\<close>

fun sendResponses :: "payload list \<Rightarrow> UntrustedNode \<Rightarrow> fault + UntrustedNode" where
  "sendResponses [] node = Inr node"
| "sendResponses (response # rest) node =
     (case nodeSend (TrackerResponse response) node of
        Inl f \<Rightarrow> Inl f
      | Inr n \<Rightarrow> sendResponses rest n)"

text \<open>
  The blocks of \<^verbatim>\<open>check\<close>, in the order of the source. \<open>requestHeaders\<close> is the
  block under \<^verbatim>\<open>if !node.state.HandshakeComplete\<close>; it returns the error of
  \<^verbatim>\<open>buildHeaderRequest\<close> if there is one.
\<close>

definition requestHeaders :: "tick \<Rightarrow> UntrustedNode \<Rightarrow> fault + (string option \<times> UntrustedNode)" where
  "requestHeaders t node =
     (if \<not> HandshakeComplete (state node)
      then (case buildHeaderRequest t of
              Inl err \<Rightarrow> Inr (Some err, node)
            | Inr msg \<Rightarrow>
                (case nodeSend (HeaderRequest msg) node of
                   Inl f \<Rightarrow> Inl f
                 | Inr n \<Rightarrow>
                     Inr (None, n\<lparr>state := (state n)\<lparr>HeadersRequested := Some (timeNow t),
                                                        HandshakeComplete := True\<rparr>\<rparr>)))
      else Inr (None, node))"

definition updateScore :: "UntrustedNode \<Rightarrow> UntrustedNode" where
  "updateScore node =
     (if \<not> ScoreUpdated (state node)
      then node\<lparr>peers := peers node @ [(address node, 5)],
                state := (state node)\<lparr>ScoreUpdated := True\<rparr>\<rparr>
      else node)"

definition requestAddresses :: "UntrustedNode \<Rightarrow> fault + UntrustedNode" where
  "requestAddresses node =
     (if \<not> AddressesRequested (state node)
      then (case nodeSend MsgGetAddr node of
              Inl f \<Rightarrow> Inl f
            | Inr n \<Rightarrow> Inr (n\<lparr>state := (state n)\<lparr>AddressesRequested := True\<rparr>\<rparr>))
      else Inr node)"

definition requestMemPool :: "UntrustedNode \<Rightarrow> fault + UntrustedNode" where
  "requestMemPool node =
     (if \<not> MemPoolRequested (state node)
      then (case nodeSend MsgMemPool node of
              Inl f \<Rightarrow> Inl f
            | Inr n \<Rightarrow> Inr (n\<lparr>state := (state n)\<lparr>MemPoolRequested := True\<rparr>\<rparr>))
      else Inr node)"

definition check :: "tick \<Rightarrow> UntrustedNode \<Rightarrow> fault + (string option \<times> UntrustedNode)" where
  "check t node =
     (if \<not> VersionReceived (state node) then Inr (None, node)
      else
        (case requestHeaders t node of
           Inl f \<Rightarrow> Inl f
         | Inr (Some err, n) \<Rightarrow> Inr (Some err, n)
         | Inr (None, n1) \<Rightarrow>
             if \<not> Verified (state n1) then Inr (None, n1)
             else
               (case requestAddresses (updateScore n1) of
                  Inl f \<Rightarrow> Inl f
                | Inr n2 \<Rightarrow>
                    (case requestMemPool n2 of
                       Inl f \<Rightarrow> Inl f
                     | Inr n3 \<Rightarrow>
                         (case txTrackerCheck t of
                            Inl err \<Rightarrow> Inr (Some err, n3)
                          | Inr responses \<Rightarrow>
                              (case sendResponses responses n3 of
                                 Inl f \<Rightarrow> Inl f
                               | Inr n4 \<Rightarrow> Inr (None, n4)))))))"



text \<open>Successive calls of \<^verbatim>\<open>Stop\<close>.\<close>

fun Stops :: "nat \<Rightarrow> UntrustedNode \<Rightarrow> fault + UntrustedNode" where
  "Stops 0 node = Inr node"
| "Stops (Suc k) node =
     (case Stop node of
        Inl f \<Rightarrow> Inl f
      | Inr (_, n) \<Rightarrow> Stops k n)"








text \<open>
  The flag \<^verbatim>\<open>outgoingOpen\<close> tells whether the channel is still open, and the
  mutex of the node is free: this holds for a new node and between the calls of
  \<^verbatim>\<open>Stop\<close>, \<^verbatim>\<open>BroadcastTx\<close> and \<^verbatim>\<open>check\<close>.
\<close>

definition channelFlag :: "UntrustedNode \<Rightarrow> bool" where
  "channelFlag node = (\<not> nodeMutex node \<and> outgoingOpen node = (\<not> chanClosed (outgoing node)))"

section \<open>Example values\<close>

text \<open>
  Two transactions \<open>txA\<close> and \<open>txB\<close> with different hashes that spend the same
  outpoint \<open>O1\<close>, a third one \<open>txR\<close>, and the mempools met along the way.
\<close>

definition O1 :: OutPoint where
  "O1 = \<lparr>Hash = 7, Index = 0, OutpointHash = 9\<rparr>"

definition txA :: MsgTx where
  "txA = \<lparr>TxHash = 1, TxIn = [\<lparr>PreviousOutPoint = O1\<rparr>]\<rparr>"

definition txB :: MsgTx where
  "txB = \<lparr>TxHash = 2, TxIn = [\<lparr>PreviousOutPoint = O1\<rparr>]\<rparr>"

definition txR :: MsgTx where
  "txR = \<lparr>TxHash = 5, TxIn = [\<lparr>PreviousOutPoint = O1\<rparr>]\<rparr>"

definition poolA :: MemPool where
  "poolA = \<lparr>txs = [1 \<mapsto> \<lparr>time = 10, outPoints = [O1]\<rparr>], inputs = [9 \<mapsto> [1]],
     requests = Map.empty, mutex = False\<rparr>"

definition poolAB :: MemPool where
  "poolAB = \<lparr>txs = [1 \<mapsto> \<lparr>time = 10, outPoints = [O1]\<rparr>, 2 \<mapsto> \<lparr>time = 20, outPoints = [O1]\<rparr>],
     inputs = [9 \<mapsto> [1]], requests = Map.empty, mutex = False\<rparr>"

definition poolA' :: MemPool where
  "poolA' = \<lparr>txs = [1 \<mapsto> \<lparr>time = 10, outPoints = [O1]\<rparr>], inputs = Map.empty,
     requests = Map.empty, mutex = False\<rparr>"

definition poolR :: MemPool where
  "poolR = \<lparr>txs = Map.empty, inputs = Map.empty, requests = [5 \<mapsto> 0], mutex = False\<rparr>"

definition state0 :: UntrustedState where
  "state0 = \<lparr>ConnectedTime = None, VersionReceived = False, ProtocolVersion = 0,
     HandshakeComplete = False, HeadersRequested = None, Verified = False,
     ScoreUpdated = False, AddressesRequested = False, MemPoolRequested = False\<rparr>"

definition node0 :: UntrustedNode where
  "node0 = NewUntrustedNode ''peer'' state0 []"






section \<open>Facts about the clock\<close>

lemma Seconds_eq: "Seconds d = real_of_int d / 1000000000"
proof -
  have "d sdiv Second * Second + d smod Second = d"
    by (rule sdiv_mult_smod_eq)
  then have "real_of_int (d sdiv Second * Second + d smod Second) = real_of_int d"
    by simp
  then have "real_of_int (d sdiv Second) * 1000000000 + real_of_int (d smod Second) = real_of_int d"
    by (simp add: Second_def)
  then show ?thesis
    unfolding Seconds_def by (simp add: field_simps)
qed

lemma Seconds_gt_3: "(Seconds d > 3) = (d > 3000000000)"
  by (simp add: Seconds_eq field_simps)

lemma Sub_gt_3: "(Sub now t > 3000000000) = (now - t > 3000000000)"
  by (simp add: Sub_def maxDuration_def minDuration_def)

lemma request_old: "(Seconds (Sub now requestTime) > 3) = (now - requestTime > 3 * Second)"
  by (simp add: Seconds_gt_3 Sub_gt_3 Second_def)

section \<open>MemPool: adding and removing\<close>

lemma addInputs_result: "fst (addInputs hash ops result inp) = result"
  by (induction ops arbitrary: inp) (auto simp: Let_def split: option.splits)

lemma AddTransaction_new:
  assumes "\<not> mutex memPool" "txs memPool (TxHash tx) = None"
  shows "AddTransaction now tx memPool =
     Inr (([], True), memPool\<lparr>txs := (txs memPool)(TxHash tx \<mapsto> newMemPoolTx now tx),
        inputs := snd (addInputs (TxHash tx) (map PreviousOutPoint (TxIn tx)) [] (inputs memPool))\<rparr>)"
  using assms addInputs_result[of "TxHash tx" "map PreviousOutPoint (TxIn tx)" "[]" "inputs memPool"]
  by (cases "addInputs (TxHash tx) (map PreviousOutPoint (TxIn tx)) [] (inputs memPool)")
     (simp add: AddTransaction_def Lock_def Unlock_def Let_def newMemPoolTx_def)

lemma AddTransaction_old:
  assumes "\<not> mutex memPool" "txs memPool (TxHash tx) = Some e"
  shows "AddTransaction now tx memPool = Inr (([], False), memPool)"
  using assms
  by (simp add: AddTransaction_def Lock_def Unlock_def Let_def)

lemma add_A: "AddTransaction 10 txA NewMemPool = Inr (([], True), poolA)"
  by (simp add: AddTransaction_new NewMemPool_def txA_def O1_def newMemPoolTx_def poolA_def)

lemma add_B: "AddTransaction 20 txB poolA = Inr (([], True), poolAB)"
  by (simp add: AddTransaction_new txB_def O1_def newMemPoolTx_def poolA_def poolAB_def)

lemma rem_B: "RemoveTransaction 2 poolAB = Inr (True, poolA')"
  by (simp add: RemoveTransaction_def Lock_def Unlock_def poolAB_def poolA'_def O1_def)

lemma addInputs_keeps:
  "inp k = Some list \<Longrightarrow> snd (addInputs hash ops result inp) k = Some list"
proof (induction ops arbitrary: inp)
  case Nil
  then show ?case by simp
next
  case (Cons outpoint rest)
  show ?case
  proof (cases "inp (OutpointHash outpoint)")
    case None
    with Cons.prems have "(inp(OutpointHash outpoint \<mapsto> [hash])) k = Some list"
      by auto
    then have "snd (addInputs hash rest result (inp(OutpointHash outpoint \<mapsto> [hash]))) k = Some list"
      by (rule Cons.IH)
    with None show ?thesis by simp
  next
    case (Some l)
    with Cons show ?thesis by simp
  qed
qed

lemma RemoveTransaction_locked: "mutex m \<Longrightarrow> RemoveTransaction h m = Inl Deadlock"
  by (simp add: RemoveTransaction_def Lock_def)

lemma conflictingList_locked:
  "mutex m \<Longrightarrow> conflictingList (h # hs) result m = Inl Deadlock"
  by (simp add: RemoveTransaction_locked)

lemma conflictingInputs_locked:
  assumes "mutex m" "input \<in> set ins"
    "inputs m (OutpointHash (PreviousOutPoint input)) = Some (h # hs)"
  shows "conflictingInputs ins result m = Inl Deadlock"
  using assms
proof (induction ins arbitrary: result)
  case Nil
  then show ?case by simp
next
  case (Cons i rest)
  show ?case
  proof (cases "inputs m (OutpointHash (PreviousOutPoint i))")
    case None
    with Cons show ?thesis by auto
  next
    case (Some list)
    show ?thesis
    proof (cases list)
      case Nil
      with Some Cons show ?thesis by auto
    next
      case (Cons x xs)
      with Some \<open>mutex m\<close> show ?thesis by (simp add: RemoveTransaction_locked)
    qed
  qed
qed

lemma RemoveTransaction_requests:
  "RemoveTransaction h m = Inr (r, m') \<Longrightarrow> requests m' = requests m"
  by (auto simp add: RemoveTransaction_def Lock_def Unlock_def split: if_splits option.splits)

lemma conflictingList_requests:
  "conflictingList hs result m = Inr (r, m') \<Longrightarrow> requests m' = requests m"
proof (induction hs arbitrary: result m)
  case Nil
  then show ?case by simp
next
  case (Cons h hs)
  then show ?case
    by (auto split: sum.splits dest: RemoveTransaction_requests)
qed

lemma conflictingInputs_requests:
  "conflictingInputs ins result m = Inr (r, m') \<Longrightarrow> requests m' = requests m"
proof (induction ins arbitrary: result m)
  case Nil
  then show ?case by simp
next
  case (Cons i ins)
  then show ?case
    by (auto split: sum.splits option.splits dest: conflictingList_requests)
qed

lemma Conflicting_requests:
  "Conflicting tx m = Inr (r, m') \<Longrightarrow> requests m' = requests m"
  by (auto simp add: Conflicting_def Lock_def Unlock_def split: if_splits sum.splits
      dest: conflictingInputs_requests)

text \<open>
  When \<^verbatim>\<open>Conflicting\<close> returns, it has found no conflict: the result is empty and
  the mempool is as it was.
\<close>

lemma conflictingList_returns:
  "mutex m \<Longrightarrow> conflictingList hs result m = Inr (r, m') \<Longrightarrow> hs = [] \<and> r = result \<and> m' = m"
  by (cases hs) (simp_all add: RemoveTransaction_locked)

lemma conflictingInputs_returns:
  "mutex m \<Longrightarrow> conflictingInputs ins result m = Inr (r, m') \<Longrightarrow> r = result \<and> m' = m"
proof (induction ins arbitrary: result)
  case Nil
  then show ?case by simp
next
  case (Cons i ins)
  show ?case
  proof (cases "inputs m (OutpointHash (PreviousOutPoint i))")
    case None
    with Cons show ?thesis by simp
  next
    case (Some list)
    with Cons.prems obtain r1 m1 where l: "conflictingList list result m = Inr (r1, m1)"
      and c: "conflictingInputs ins r1 m1 = Inr (r, m')"
      by (auto split: sum.splits)
    from conflictingList_returns[OF Cons.prems(1) l] have "r1 = result" "m1 = m" by simp_all
    with c Cons.IH[OF Cons.prems(1)] show ?thesis by simp
  qed
qed

lemma Conflicting_returns:
  assumes "\<not> mutex memPool" "Conflicting tx memPool = Inr (r, m')"
  shows "r = [] \<and> m' = memPool"
proof -
  from assms obtain r1 m1
    where c: "conflictingInputs (TxIn tx) [] (memPool\<lparr>mutex := True\<rparr>) = Inr (r1, m1)"
      and e: "r = r1" "m' = Unlock m1"
    by (auto simp add: Conflicting_def Lock_def split: sum.splits)
  from conflictingInputs_returns[OF _ c] have "r1 = []" "m1 = memPool\<lparr>mutex := True\<rparr>"
    by simp_all
  with e assms(1) show ?thesis by (simp add: Unlock_def)
qed

lemma indexOf_None: "(indexOf h xs = None) = (h \<notin> set xs)"
  by (induction xs) auto

lemma cutShared_absent: "outpointHash \<notin> set otherHashes \<Longrightarrow> cutShared outpointHash otherHashes = otherHashes"
  using indexOf_None[of outpointHash otherHashes] by (simp add: cutShared_def)

lemma length_cutShared: "length (cutShared h xs) = length xs"
proof (cases "indexOf h xs")
  case None
  then show ?thesis by (simp add: cutShared_def)
next
  case (Some i)
  have "i < length xs" if "indexOf h xs = Some i" for i
    using that by (induction xs arbitrary: i) (auto split: if_splits)
  with Some show ?thesis by (auto simp add: cutShared_def)
qed

text \<open>
  The index holds one hash for each outpoint.
\<close>

lemma addInputs_singletons:
  "singletons inp \<Longrightarrow> singletons (snd (addInputs hash ops result inp))"
proof (induction ops arbitrary: inp)
  case Nil
  then show ?case by simp
next
  case (Cons outpoint rest)
  show ?case
  proof (cases "inp (OutpointHash outpoint)")
    case None
    from Cons.prems have "singletons (inp(OutpointHash outpoint \<mapsto> [hash]))"
      by (simp add: singletons_def)
    then have "singletons (snd (addInputs hash rest result (inp(OutpointHash outpoint \<mapsto> [hash]))))"
      by (rule Cons.IH)
    with None show ?thesis by simp
  next
    case (Some l)
    with Cons show ?thesis by simp
  qed
qed

lemma removeOutpoints_singletons:
  "singletons inp \<Longrightarrow> singletons (removeOutpoints ops inp)"
proof (induction ops arbitrary: inp)
  case Nil
  then show ?case by simp
next
  case (Cons outpoint rest)
  show ?case
  proof (cases "inp (OutpointHash outpoint)")
    case None
    with Cons show ?thesis by simp
  next
    case (Some l)
    with Cons.prems have 1: "length l = 1" by (simp add: singletons_def)
    from Cons.prems have "singletons (inp(OutpointHash outpoint := None))"
      by (simp add: singletons_def)
    then have "singletons (removeOutpoints rest (inp(OutpointHash outpoint := None)))"
      by (rule Cons.IH)
    with Some 1 show ?thesis by simp
  qed
qed

lemma singletons_AddTransaction:
  "singletons (inputs m) \<Longrightarrow> AddTransaction now tx m = Inr (r, m') \<Longrightarrow> singletons (inputs m')"
proof (cases "txs m (TxHash tx)")
  case None
  assume s: "singletons (inputs m)" and a: "AddTransaction now tx m = Inr (r, m')"
  from a have "\<not> mutex m" by (auto simp add: AddTransaction_def Lock_def split: if_splits)
  with None a s show ?thesis
    by (auto simp add: AddTransaction_new addInputs_singletons)
next
  case (Some e)
  assume s: "singletons (inputs m)" and a: "AddTransaction now tx m = Inr (r, m')"
  from a have "\<not> mutex m" by (auto simp add: AddTransaction_def Lock_def split: if_splits)
  with Some a s show ?thesis
    by (auto simp add: AddTransaction_old)
qed

lemma singletons_RemoveTransaction:
  "singletons (inputs m) \<Longrightarrow> RemoveTransaction h m = Inr (r, m') \<Longrightarrow> singletons (inputs m')"
  by (auto simp add: RemoveTransaction_def Lock_def Unlock_def removeOutpoints_singletons
      split: if_splits option.splits)

section \<open>MemPool: the claims\<close>

text \<open>
  C1. \<^verbatim>\<open>Conflicting\<close> is to return the hashes of the tracked transactions that
  spend an outpoint of the given transaction, and to evict them. It does not: as soon as
  an input of the transaction has a non-empty entry in the index, \<^verbatim>\<open>Conflicting\<close>,
  which holds the mutex, calls \<^verbatim>\<open>RemoveTransaction\<close>, which locks the same mutex, and
  the call never returns.
\<close>

theorem Conflicting_deadlock:
  assumes "\<not> mutex memPool" "input \<in> set (TxIn tx)"
    "inputs memPool (OutpointHash (PreviousOutPoint input)) = Some (h # hs)"
  shows "Conflicting tx memPool = Inl Deadlock"
  using conflictingInputs_locked[of "memPool\<lparr>mutex := True\<rparr>" input "TxIn tx" h hs "[]"] assms
  by (simp add: Conflicting_def Lock_def)

text \<open>
  The hypotheses hold after \<open>txA\<close> has been added to the new mempool and \<open>txB\<close>
  is checked for conflicts.
\<close>

theorem Conflicting_deadlock_witness:
  "AddTransaction 10 txA NewMemPool = Inr (([], True), poolA) \<and> \<not> mutex poolA
   \<and> \<lparr>PreviousOutPoint = O1\<rparr> \<in> set (TxIn txB)
   \<and> inputs poolA (OutpointHash (PreviousOutPoint \<lparr>PreviousOutPoint = O1\<rparr>)) = Some [TxHash txA]
   \<and> Conflicting txB poolA = Inl Deadlock"
  using Conflicting_deadlock[of poolA "\<lparr>PreviousOutPoint = O1\<rparr>" txB 1 "[]"] add_A
  by (simp add: poolA_def txB_def txA_def O1_def)

text \<open>
  C2. \<^verbatim>\<open>RemoveTransaction\<close> of a tracked hash returns \<open>True\<close> and deletes the entry,
  but it does not leave the index entry of a co-spender intact: after \<open>txA\<close> and then
  \<open>txB\<close>, both spending \<open>O1\<close>, have been added, removing \<open>txB\<close> deletes the
  index entry of \<open>O1\<close> although \<open>txA\<close> is still tracked and spends \<open>O1\<close>.
\<close>

theorem RemoveTransaction_unindexes_cospender:
  "AddTransaction 10 txA NewMemPool = Inr (([], True), poolA)
   \<and> AddTransaction 20 txB poolA = Inr (([], True), poolAB)
   \<and> RemoveTransaction (TxHash txB) poolAB = Inr (True, poolA')
   \<and> txs poolA' (TxHash txA) = Some \<lparr>time = 10, outPoints = [O1]\<rparr>
   \<and> inputs poolA' (OutpointHash O1) = None"
  using add_A add_B rem_B by (simp add: txA_def txB_def O1_def poolA'_def)

text \<open>
  C3. After \<^verbatim>\<open>AddTransaction\<close> has accepted a transaction, the index entry of every
  outpoint it spends should contain its hash. It does not when the outpoint is in the
  index already: an existing index entry is left as it was, so the hash of the new
  transaction is missing from it.
\<close>

theorem AddTransaction_keeps_index_entry:
  assumes "\<not> mutex memPool" "txs memPool (TxHash tx) = None" "inputs memPool k = Some list"
  shows "\<exists>m'. AddTransaction now tx memPool = Inr (([], True), m') \<and> inputs m' k = Some list"
  using assms by (simp add: AddTransaction_new addInputs_keeps)

text \<open>
  \<open>txB\<close> spends \<open>O1\<close>, which \<open>txA\<close> spends already; after \<open>txB\<close> is
  accepted the index entry of \<open>O1\<close> holds the hash of \<open>txA\<close> only.
\<close>

theorem AddTransaction_keeps_index_entry_witness:
  "\<not> mutex poolA \<and> txs poolA (TxHash txB) = None
   \<and> inputs poolA (OutpointHash O1) = Some [TxHash txA]
   \<and> O1 \<in> set (map PreviousOutPoint (TxIn txB)) \<and> TxHash txB \<notin> set [TxHash txA]
   \<and> (\<exists>m'. AddTransaction 20 txB poolA = Inr (([], True), m')
          \<and> inputs m' (OutpointHash O1) = Some [TxHash txA])"
  using AddTransaction_keeps_index_entry[of poolA txB "OutpointHash O1" "[TxHash txA]" 20]
  by (simp add: poolA_def txB_def txA_def O1_def)

text \<open>
  C4. For a transaction whose hash is not tracked, \<^verbatim>\<open>AddTransaction\<close> returns
  \<open>added = True\<close>; a second call with the same transaction returns \<open>added = False\<close>
  and leaves the mempool, and so the set of tracked entries, as it was.
\<close>

theorem AddTransaction_twice:
  assumes "\<not> mutex memPool" "txs memPool (TxHash tx) = None"
  shows "\<exists>conflicts m1. AddTransaction now tx memPool = Inr ((conflicts, True), m1)
           \<and> AddTransaction now' tx m1 = Inr (([], False), m1)"
  using assms by (simp add: AddTransaction_new AddTransaction_old)

theorem AddTransaction_twice_witness:
  "\<not> mutex poolA \<and> txs poolA (TxHash txB) = None
   \<and> (\<exists>conflicts m1. AddTransaction 20 txB poolA = Inr ((conflicts, True), m1)
           \<and> AddTransaction 30 txB m1 = Inr (([], False), m1))"
  using AddTransaction_twice[of poolA txB 20 30]
  by (simp add: poolA_def txB_def)

text \<open>
  C5, as amended. \<^verbatim>\<open>AddRequest\<close> returns \<open>(True, False)\<close> for a tracked hash.
  Otherwise, when no request is recorded for the hash or strictly more than 3 seconds
  have passed since the recorded one, it records the current time and returns
  \<open>(False, True)\<close>; otherwise, also at exactly 3 seconds, it returns
  \<open>(False, False)\<close> and changes nothing.
\<close>

theorem AddRequest_spec:
  assumes "\<not> mutex memPool"
  shows "AddRequest now txid memPool =
     Inr (if txs memPool txid \<noteq> None then ((True, False), memPool)
          else if (case requests memPool txid of
                     None \<Rightarrow> True
                   | Some requestTime \<Rightarrow> now - requestTime > 3 * Second)
          then ((False, True), memPool\<lparr>requests := (requests memPool)(txid \<mapsto> now)\<rparr>)
          else ((False, False), memPool))"
  using assms
  by (auto simp add: AddRequest_def Lock_def Unlock_def request_old split: option.splits)

theorem AddRequest_spec_witness:
  "\<not> mutex poolR
   \<and> AddRequest 3000000001 5 poolR = Inr ((False, True), poolR\<lparr>requests := [5 \<mapsto> 3000000001]\<rparr>)
   \<and> AddRequest 3000000000 5 poolR = Inr ((False, False), poolR)
   \<and> AddRequest 1 6 poolR = Inr ((False, True), poolR\<lparr>requests := [5 \<mapsto> 0, 6 \<mapsto> 1]\<rparr>)
   \<and> AddRequest 1 1 poolA = Inr ((True, False), poolA)"
  using AddRequest_spec[of poolR 3000000001 5] AddRequest_spec[of poolR 3000000000 5]
    AddRequest_spec[of poolR 1 6] AddRequest_spec[of poolA 1 1]
  by (simp add: poolR_def poolA_def Second_def)

text \<open>
  C5 as stated asks for \<open>(False, True)\<close> when exactly 3 seconds have passed. The
  test is \<^verbatim>\<open>now.Sub(requestTime).Seconds() > 3\<close>: a request recorded at time 0 and
  repeated 3 seconds later is answered \<open>(False, False)\<close>.
\<close>

theorem AddRequest_three_seconds_counterexample:
  "AddRequest 0 5 NewMemPool = Inr ((False, True), poolR)
   \<and> 3000000000 - 0 = 3 * Second
   \<and> AddRequest 3000000000 5 poolR = Inr ((False, False), poolR)"
  by (simp add: AddRequest_def Lock_def Unlock_def NewMemPool_def poolR_def request_old Second_def)

text \<open>
  C6. For a transaction that is not tracked, \<^verbatim>\<open>AddTransaction\<close> returns the empty
  sequence of conflicts and \<open>added = True\<close>, and every entry tracked before is still
  tracked with the same value, whether or not an outpoint of the new transaction is
  spent by another tracked transaction.
\<close>

theorem AddTransaction_no_conflicts_no_eviction:
  assumes "\<not> mutex memPool" "txs memPool (TxHash tx) = None"
  shows "\<exists>m1. AddTransaction now tx memPool = Inr (([], True), m1)
           \<and> (\<forall>h e. txs memPool h = Some e \<longrightarrow> txs m1 h = Some e)"
  using assms by (auto simp add: AddTransaction_new)

theorem AddTransaction_no_conflicts_no_eviction_witness:
  "\<not> mutex poolA \<and> txs poolA (TxHash txB) = None
   \<and> txs poolA (TxHash txA) = Some \<lparr>time = 10, outPoints = [O1]\<rparr>
   \<and> inputs poolA (OutpointHash O1) = Some [TxHash txA]
   \<and> O1 \<in> set (map PreviousOutPoint (TxIn txB))
   \<and> (\<exists>m1. AddTransaction 20 txB poolA = Inr (([], True), m1)
           \<and> txs m1 (TxHash txA) = Some \<lparr>time = 10, outPoints = [O1]\<rparr>)"
  using AddTransaction_no_conflicts_no_eviction[of poolA txB 20]
  by (auto simp add: poolA_def txB_def txA_def O1_def)

text \<open>
  C10. No operation deletes a pending request. \<^verbatim>\<open>AddTransaction\<close>,
  \<^verbatim>\<open>RemoveTransaction\<close> and \<^verbatim>\<open>TransactionExists\<close> return and leave the table of
  requests as it was; so does \<^verbatim>\<open>Conflicting\<close> whenever it returns; \<^verbatim>\<open>AddRequest\<close>
  leaves it as it was when it answers \<open>alreadyHave\<close> or not \<open>shouldRequest\<close>, and
  otherwise stores the current time for the queried hash and nothing else.
\<close>

theorem requests_never_deleted:
  assumes "\<not> mutex memPool"
  shows "(\<exists>r m'. AddTransaction now tx memPool = Inr (r, m') \<and> requests m' = requests memPool)
       \<and> (\<exists>r m'. RemoveTransaction h memPool = Inr (r, m') \<and> requests m' = requests memPool)
       \<and> (\<exists>r m'. TransactionExists h memPool = Inr (r, m') \<and> requests m' = requests memPool)
       \<and> (\<forall>r m'. Conflicting tx memPool = Inr (r, m') \<longrightarrow> requests m' = requests memPool)
       \<and> (\<exists>alreadyHave shouldRequest m'.
             AddRequest now h memPool = Inr ((alreadyHave, shouldRequest), m')
             \<and> requests m' = (if alreadyHave \<or> \<not> shouldRequest then requests memPool
                               else (requests memPool)(h \<mapsto> now)))"
proof (intro conjI)
  show "\<exists>r m'. AddTransaction now tx memPool = Inr (r, m') \<and> requests m' = requests memPool"
  proof (cases "txs memPool (TxHash tx)")
    case None
    with assms show ?thesis by (auto simp add: AddTransaction_new)
  next
    case (Some e)
    with assms show ?thesis by (auto simp add: AddTransaction_old)
  qed
  show "\<exists>r m'. RemoveTransaction h memPool = Inr (r, m') \<and> requests m' = requests memPool"
    using assms by (auto simp add: RemoveTransaction_def Lock_def Unlock_def split: option.splits)
  show "\<exists>r m'. TransactionExists h memPool = Inr (r, m') \<and> requests m' = requests memPool"
    using assms by (auto simp add: TransactionExists_def Lock_def Unlock_def)
  show "\<forall>r m'. Conflicting tx memPool = Inr (r, m') \<longrightarrow> requests m' = requests memPool"
    by (auto dest: Conflicting_requests)
  show "\<exists>alreadyHave shouldRequest m'.
          AddRequest now h memPool = Inr ((alreadyHave, shouldRequest), m')
          \<and> requests m' = (if alreadyHave \<or> \<not> shouldRequest then requests memPool
                            else (requests memPool)(h \<mapsto> now))"
    using assms by (auto simp add: AddRequest_def Lock_def Unlock_def split: option.splits)
qed

theorem requests_never_deleted_witness:
  "\<not> mutex poolR \<and> requests poolR 5 = Some 0
   \<and> Conflicting txR poolR = Inr ([], poolR)
   \<and> (\<exists>r m'. AddTransaction 7 txR poolR = Inr (r, m') \<and> requests m' 5 = Some 0)
   \<and> (\<exists>r m'. RemoveTransaction 5 poolR = Inr (r, m') \<and> requests m' 5 = Some 0)
   \<and> (\<exists>r m'. TransactionExists 5 poolR = Inr (r, m') \<and> requests m' 5 = Some 0)
   \<and> (\<exists>alreadyHave shouldRequest m'.
         AddRequest 7 5 poolR = Inr ((alreadyHave, shouldRequest), m') \<and> requests m' 5 = Some 0)"
proof -
  have c: "Conflicting txR poolR = Inr ([], poolR)"
    by (simp add: Conflicting_def Lock_def Unlock_def poolR_def txR_def O1_def)
  have m: "\<not> mutex poolR" "requests poolR 5 = Some 0"
    by (simp_all add: poolR_def)
  have a: "AddRequest 7 5 poolR = Inr ((False, False), poolR)"
    by (simp add: AddRequest_def Lock_def Unlock_def poolR_def request_old Second_def)
  from requests_never_deleted[of poolR 7 txR 5] m c a show ?thesis
    by auto
qed

section \<open>UntrustedNode: stopping\<close>

lemma Stop_result:
  assumes "\<not> nodeMutex node" "outgoingOpen node = (\<not> chanClosed (outgoing node))"
  shows "Stop node = Inr (None, node\<lparr>stopping := True, conn := None,
           outgoing := (outgoing node)\<lparr>chanClosed := True\<rparr>, outgoingOpen := False\<rparr>)"
  using assms
  by (cases "conn node")
     (auto simp add: Stop_def nodeLock_def nodeUnlock_def disconnect_def close_def Let_def)

lemma Stops_stopped:
  assumes "\<not> nodeMutex n" "\<not> outgoingOpen n" "chanClosed (outgoing n)" "stopping n" "conn n = None"
  shows "Stops k n = Inr n"
proof (induction k)
  case 0
  show ?case by simp
next
  case (Suc k)
  from assms have "Stop n = Inr (None, n)"
    by (simp add: Stop_def nodeLock_def nodeUnlock_def disconnect_def Let_def)
  with Suc show ?case by simp
qed

lemma BroadcastTx_inactive:
  assumes "\<not> nodeMutex n" "\<not> outgoingOpen n"
  shows "BroadcastTx tx n = Inr (Some ''Node inactive'', n)"
  using assms by (simp add: BroadcastTx_def nodeLock_def nodeUnlock_def)

text \<open>
  C7. On a node whose mutex is free and whose flag \<open>outgoingOpen\<close> tells whether
  the channel is still open, \<^verbatim>\<open>Stop\<close> returns \<^verbatim>\<open>nil\<close> with the stopping flag set,
  the channel closed and the connection closed. Every further call returns too and
  changes nothing: the channel is closed once, by the first call, and no call panics.
\<close>

theorem Stop_closes_once:
  assumes "\<not> nodeMutex node" "outgoingOpen node = (\<not> chanClosed (outgoing node))"
  shows "\<exists>n1. Stop node = Inr (None, n1)
           \<and> stopping n1 \<and> chanClosed (outgoing n1) \<and> \<not> outgoingOpen n1 \<and> conn n1 = None
           \<and> sent (outgoing n1) = sent (outgoing node)
           \<and> (\<forall>k. Stops k n1 = Inr n1 \<and> Stops (Suc k) node = Inr n1)"
proof -
  let ?n1 = "node\<lparr>stopping := True, conn := None,
           outgoing := (outgoing node)\<lparr>chanClosed := True\<rparr>, outgoingOpen := False\<rparr>"
  have s: "Stop node = Inr (None, ?n1)"
    using assms by (rule Stop_result)
  have k: "Stops k ?n1 = Inr ?n1" for k
    using assms by (intro Stops_stopped) simp_all
  from s k show ?thesis by simp
qed

theorem Stop_closes_once_witness:
  "\<not> nodeMutex node0 \<and> outgoingOpen node0 = (\<not> chanClosed (outgoing node0))
   \<and> (\<exists>n1. Stop node0 = Inr (None, n1) \<and> stopping n1 \<and> chanClosed (outgoing n1)
          \<and> Stops (Suc (Suc 0)) node0 = Inr n1
          \<and> Stops (Suc (Suc (Suc 0))) node0 = Inr n1)"
  using Stop_closes_once[of node0]
  by (auto simp add: node0_def NewUntrustedNode_def)

text \<open>
  C8. After \<^verbatim>\<open>Stop\<close> has closed the channel, every call of \<^verbatim>\<open>BroadcastTx\<close>
  returns the error \<^verbatim>\<open>Node inactive\<close> and leaves the node as it was: nothing is sent
  on the closed channel, and the call neither waits nor panics.
\<close>

theorem BroadcastTx_after_Stop:
  assumes "\<not> nodeMutex node" "outgoingOpen node = (\<not> chanClosed (outgoing node))"
  shows "\<exists>n1. Stop node = Inr (None, n1) \<and> chanClosed (outgoing n1)
           \<and> (\<forall>tx. BroadcastTx tx n1 = Inr (Some ''Node inactive'', n1))"
proof -
  let ?n1 = "node\<lparr>stopping := True, conn := None,
           outgoing := (outgoing node)\<lparr>chanClosed := True\<rparr>, outgoingOpen := False\<rparr>"
  have s: "Stop node = Inr (None, ?n1)"
    using assms by (rule Stop_result)
  have "BroadcastTx tx ?n1 = Inr (Some ''Node inactive'', ?n1)" for tx
    using assms by (intro BroadcastTx_inactive) simp_all
  with s show ?thesis by simp
qed

theorem BroadcastTx_after_Stop_witness:
  "\<not> nodeMutex node0 \<and> outgoingOpen node0 = (\<not> chanClosed (outgoing node0))
   \<and> (\<exists>n1. Stop node0 = Inr (None, n1) \<and> chanClosed (outgoing n1)
          \<and> BroadcastTx txA n1 = Inr (Some ''Node inactive'', n1))"
  using BroadcastTx_after_Stop[of node0]
  by (auto simp add: node0_def NewUntrustedNode_def)

section \<open>UntrustedNode: the state check\<close>

lemma nodeSend_Inr:
  "nodeSend msg n = Inr n' \<Longrightarrow>
     n' = n\<lparr>outgoing := (outgoing n)\<lparr>sent := sent (outgoing n) @ [msg]\<rparr>\<rparr>"
  by (auto simp add: nodeSend_def chanSend_def split: if_splits)

lemma sendResponses_Inr:
  "sendResponses rs n = Inr n' \<Longrightarrow>
     n' = n\<lparr>outgoing := (outgoing n)\<lparr>sent := sent (outgoing n) @ map TrackerResponse rs\<rparr>\<rparr>"
proof (induction rs arbitrary: n)
  case Nil
  then show ?case by simp
next
  case (Cons r rs)
  from Cons.prems obtain n1 where a: "nodeSend (TrackerResponse r) n = Inr n1"
    and b: "sendResponses rs n1 = Inr n'"
    by (auto split: sum.splits)
  from Cons.IH[OF b] nodeSend_Inr[OF a] show ?case by simp
qed








lemma requestHeaders_cases:
  assumes "requestHeaders t n = Inr (e, n')"
  shows "(e = None \<and> n' = n \<and> HandshakeComplete (state n))
       \<or> (\<exists>err. buildHeaderRequest t = Inl err \<and> e = Some err \<and> n' = n
             \<and> \<not> HandshakeComplete (state n))
       \<or> (\<exists>msg. buildHeaderRequest t = Inr msg \<and> e = None \<and> \<not> HandshakeComplete (state n)
             \<and> n' = n\<lparr>outgoing := (outgoing n)\<lparr>sent := sent (outgoing n) @ [HeaderRequest msg]\<rparr>,
                       state := (state n)\<lparr>HeadersRequested := Some (timeNow t),
                                           HandshakeComplete := True\<rparr>\<rparr>)"
proof (cases "HandshakeComplete (state n)")
  case True
  with assms show ?thesis by (simp add: requestHeaders_def)
next
  case False
  show ?thesis
  proof (cases "buildHeaderRequest t")
    case (Inl err)
    with False assms show ?thesis by (simp add: requestHeaders_def)
  next
    case (Inr msg)
    with False assms obtain n1 where s: "nodeSend (HeaderRequest msg) n = Inr n1"
      and r: "n' = n1\<lparr>state := (state n1)\<lparr>HeadersRequested := Some (timeNow t),
                                           HandshakeComplete := True\<rparr>\<rparr>" and "e = None"
      by (auto simp add: requestHeaders_def split: sum.splits)
    with nodeSend_Inr[OF s] Inr False show ?thesis by simp
  qed
qed



lemma requestAddresses_cases:
  assumes "requestAddresses n = Inr n'"
  shows "(n' = n \<and> AddressesRequested (state n))
       \<or> (\<not> AddressesRequested (state n)
           \<and> n' = n\<lparr>outgoing := (outgoing n)\<lparr>sent := sent (outgoing n) @ [MsgGetAddr]\<rparr>,
                     state := (state n)\<lparr>AddressesRequested := True\<rparr>\<rparr>)"
proof (cases "AddressesRequested (state n)")
  case True
  with assms show ?thesis by (simp add: requestAddresses_def)
next
  case False
  with assms obtain n1 where s: "nodeSend MsgGetAddr n = Inr n1"
    and r: "n' = n1\<lparr>state := (state n1)\<lparr>AddressesRequested := True\<rparr>\<rparr>"
    by (auto simp add: requestAddresses_def split: sum.splits)
  with nodeSend_Inr[OF s] False show ?thesis by simp
qed


lemma requestMemPool_cases:
  assumes "requestMemPool n = Inr n'"
  shows "(n' = n \<and> MemPoolRequested (state n))
       \<or> (\<not> MemPoolRequested (state n)
           \<and> n' = n\<lparr>outgoing := (outgoing n)\<lparr>sent := sent (outgoing n) @ [MsgMemPool]\<rparr>,
                     state := (state n)\<lparr>MemPoolRequested := True\<rparr>\<rparr>)"
proof (cases "MemPoolRequested (state n)")
  case True
  with assms show ?thesis by (simp add: requestMemPool_def)
next
  case False
  with assms obtain n1 where s: "nodeSend MsgMemPool n = Inr n1"
    and r: "n' = n1\<lparr>state := (state n1)\<lparr>MemPoolRequested := True\<rparr>\<rparr>"
    by (auto simp add: requestMemPool_def split: sum.splits)
  with nodeSend_Inr[OF s] False show ?thesis by simp
qed















text \<open>
  The channel flag is an invariant of the operations of the node.
\<close>

lemma channelFlag_New: "channelFlag (NewUntrustedNode addr st prs)"
  by (simp add: channelFlag_def NewUntrustedNode_def)

lemma channelFlag_Stop: "channelFlag n \<Longrightarrow> Stop n = Inr (e, n') \<Longrightarrow> channelFlag n'"
  by (auto simp add: channelFlag_def Stop_def nodeLock_def nodeUnlock_def disconnect_def
      close_def Let_def split: if_splits option.splits)

lemma channelFlag_BroadcastTx:
  "channelFlag n \<Longrightarrow> BroadcastTx tx n = Inr (e, n') \<Longrightarrow> channelFlag n'"
  by (auto simp add: channelFlag_def BroadcastTx_def nodeLock_def nodeUnlock_def chanSend_def
      split: if_splits)

lemma check_frame:
  assumes "check t n = Inr (e, n')"
  shows "chanClosed (outgoing n') = chanClosed (outgoing n) \<and> outgoingOpen n' = outgoingOpen n
     \<and> nodeMutex n' = nodeMutex n"
proof (cases "VersionReceived (state n)")
  case False
  with assms show ?thesis by (simp add: check_def)
next
  case True
  with assms obtain eh n1 where h: "requestHeaders t n = Inr (eh, n1)"
    by (auto simp add: check_def split: sum.splits)
  from requestHeaders_cases[OF h]
  have f1: "chanClosed (outgoing n1) = chanClosed (outgoing n) \<and> outgoingOpen n1 = outgoingOpen n
     \<and> nodeMutex n1 = nodeMutex n"
    by (elim disjE exE conjE) simp_all
  show ?thesis
  proof (cases "eh = None \<and> Verified (state n1)")
    case False
    with True h assms have "n' = n1"
      by (cases eh) (auto simp add: check_def)
    with f1 show ?thesis by simp
  next
    case v: True
    with True h assms obtain n2 n3
      where a: "requestAddresses (updateScore n1) = Inr n2"
        and m: "requestMemPool n2 = Inr n3"
        and r: "(\<exists>err. txTrackerCheck t = Inl err \<and> n' = n3)
              \<or> (\<exists>rs. txTrackerCheck t = Inr rs \<and> sendResponses rs n3 = Inr n')"
      by (auto simp add: check_def split: sum.splits)
    from requestAddresses_cases[OF a]
    have f2: "chanClosed (outgoing n2) = chanClosed (outgoing n1)
        \<and> outgoingOpen n2 = outgoingOpen n1 \<and> nodeMutex n2 = nodeMutex n1"
      by (elim disjE conjE) (simp_all add: updateScore_def)
    from requestMemPool_cases[OF m]
    have f3: "chanClosed (outgoing n3) = chanClosed (outgoing n2)
        \<and> outgoingOpen n3 = outgoingOpen n2 \<and> nodeMutex n3 = nodeMutex n2"
      by (elim disjE conjE) simp_all
    from r have "chanClosed (outgoing n') = chanClosed (outgoing n3)
        \<and> outgoingOpen n' = outgoingOpen n3 \<and> nodeMutex n' = nodeMutex n3"
    proof
      assume "\<exists>err. txTrackerCheck t = Inl err \<and> n' = n3"
      then show ?thesis by auto
    next
      assume "\<exists>rs. txTrackerCheck t = Inr rs \<and> sendResponses rs n3 = Inr n'"
      then obtain rs where "sendResponses rs n3 = Inr n'" by blast
      from sendResponses_Inr[OF this] show ?thesis by simp
    qed
    with f1 f2 f3 show ?thesis by simp
  qed
qed

lemma channelFlag_check: "channelFlag n \<Longrightarrow> check t n = Inr (e, n') \<Longrightarrow> channelFlag n'"
  using check_frame[of t n e n'] by (simp add: channelFlag_def)













end
